theory Spec2Isabelle
  imports Main
begin

section \<open>The checkpointed undo/redo buffer of \<^verbatim>\<open>src/src/cached_resource.hpp\<close>\<close>

text \<open>
  \<^verbatim>\<open>sk::CachedResource<T, Traits>\<close> keeps two deques, \<^verbatim>\<open>m_data\<close> (the history) and
  \<^verbatim>\<open>m_cache\<close> (the checkpoints), an iterator into each (\<^verbatim>\<open>m_dataLimit\<close>,
  \<^verbatim>\<open>m_cacheLimit\<close>), the flag \<^verbatim>\<open>m_underUndo\<close> and the combiner \<^verbatim>\<open>m_function\<close>.

  Modelling decisions.
  \<^item> A deque is a list. An iterator is either singular, as the value-initialised
    members \<^verbatim>\<open>Iterator m_dataLimit{}\<close> and \<^verbatim>\<open>Iterator m_cacheLimit{}\<close> of a new object are
    (no constructor assigns them), or it designates a position of its deque:
    \<^verbatim>\<open>begin()\<close> is position 0, \<^verbatim>\<open>end()\<close> is the length, \<^verbatim>\<open>++it\<close> and \<^verbatim>\<open>--it\<close> add and
    subtract one. An iterator keeps its position when elements behind it are popped.
  \<^item> The source contains no test of a precondition, no exception and no assertion.
    Every use of a singular iterator other than an assignment to it, every
    dereference of a position outside the container, \<^verbatim>\<open>back()\<close> and \<^verbatim>\<open>pop_back()\<close> on an
    empty deque and the dereference of a null pointer is undefined behaviour in
    C++. The model returns a \<open>fault\<close> there: it marks the point from which the
    language promises nothing, not a failure that the program signals.
  \<^item> The combiner has type \<^verbatim>\<open>void (*)(T&, T&)\<close>: both arguments are mutable references.
    It is a function returning the new value of both arguments, and the second
    component is written back into the container.
  \<^item> The accumulator handed to \<^verbatim>\<open>reduceTo\<close> is an object of the caller, distinct from
    the elements of the two deques.
  \<^item> \<^verbatim>\<open>Traits::cacheGap\<close> is the parameter \<open>g\<close>; the \<^verbatim>\<open>static_assert\<close> demands \<open>0 < g\<close>.
    The casts of sizes and distances to \<^verbatim>\<open>int\<close> are exact below \<open>2^31\<close> elements, and
    the model takes them to be exact.
\<close>

datatype fault = OutOfRange | EmptyContainer | NullPointer | SingularIterator

datatype iterator = Singular | At nat

record 'a cached_resource =
  m_data :: "'a list"
  m_cache :: "'a list"
  m_dataLimit :: iterator
  m_cacheLimit :: iterator
  m_underUndo :: bool

type_synonym ('s, 'a) combiner = "'s \<Rightarrow> 'a \<Rightarrow> 's \<times> 'a"

text \<open>
  What a caller may see of a call. A call with defined behaviour returns its value;
  after undefined behaviour the call may abort or return any value whatever.
\<close>

datatype 'a observation = Returns 'a | Aborts

definition observable :: "fault + 'a \<Rightarrow> 'a observation set" where
  "observable r = (case r of Inl e \<Rightarrow> UNIV | Inr v \<Rightarrow> {Returns v})"

text \<open>Sequencing: the first fault ends the call.\<close>

fun then_do :: "fault + 'a \<Rightarrow> ('a \<Rightarrow> fault + 'b) \<Rightarrow> fault + 'b" where
  "then_do (Inl e) k = Inl e"
| "then_do (Inr x) k = k x"

text \<open>
  The new object, as \<^verbatim>\<open>explicit CachedResource(Function f)\<close> leaves it: both deques
  empty, both iterators singular, \<^verbatim>\<open>m_underUndo{ false }\<close>.
\<close>

definition fresh :: "'a cached_resource" where
  "fresh = \<lparr>m_data = [], m_cache = [], m_dataLimit = Singular, m_cacheLimit = Singular,
            m_underUndo = False\<rparr>"

text \<open>
  Reading an iterator, in a comparison, in \<^verbatim>\<open>std::distance(c.begin(), it)\<close> or in
  iterator arithmetic: its position, unless it is singular.
\<close>

fun position :: "iterator \<Rightarrow> fault + nat" where
  "position Singular = Inl SingularIterator"
| "position (At n) = Inr n"

text \<open>\<^verbatim>\<open>*it\<close> for the iterator at position \<open>i\<close>, which \<^verbatim>\<open>it - 1\<close> may put before the beginning.\<close>

definition deref :: "'a list \<Rightarrow> int \<Rightarrow> fault + 'a" where
  "deref xs i = (if 0 \<le> i \<and> i < int (length xs) then Inr (xs ! nat i) else Inl OutOfRange)"

definition getNumCaches :: "'a cached_resource \<Rightarrow> fault + nat" where
  "getNumCaches s = (if m_cache s = [] then Inr 0 else position (m_cacheLimit s))"

definition noCaches :: "'a cached_resource \<Rightarrow> fault + bool" where
  "noCaches s = then_do (getNumCaches s) (\<lambda>n. Inr (n \<le> 0))"

definition getIteratorPastCache :: "nat \<Rightarrow> 'a cached_resource \<Rightarrow> fault + nat" where
  "getIteratorPastCache g s =
     then_do (getNumCaches s) (\<lambda>n.
       let offset = n * g in
       then_do (position (m_dataLimit s)) (\<lambda>max.
         Inr (min max offset)))"

text \<open>
  The loop \<^verbatim>\<open>while(limit != c.end()) { c.pop_back(); }\<close> of \<^verbatim>\<open>clearUndo\<close>, for a limit at
  position \<open>lim\<close>. With the limit beyond the end it empties the deque and then pops
  from the empty deque.
\<close>

function pop_back_until :: "'a list \<Rightarrow> nat \<Rightarrow> fault + 'a list" where
  "pop_back_until xs lim =
     (if lim = length xs then Inr xs
      else if xs = [] then Inl EmptyContainer
      else pop_back_until (butlast xs) lim)"
  by pat_completeness auto
termination
  by (relation "measure (\<lambda>(xs, lim). length xs)") auto

declare pop_back_until.simps [simp del]

text \<open>
  \<^verbatim>\<open>clearUndo\<close>. \<^verbatim>\<open>m_cache.clear()\<close> and the pops leave both iterators as they are; the
  source does not read \<^verbatim>\<open>m_cacheLimit\<close> again while \<^verbatim>\<open>m_cache\<close> is empty.
\<close>

definition clearUndo :: "'a cached_resource \<Rightarrow> fault + 'a cached_resource" where
  "clearUndo s =
     then_do (position (m_dataLimit s)) (\<lambda>lim.
     then_do (pop_back_until (m_data s) lim) (\<lambda>d.
     then_do (noCaches s) (\<lambda>nc.
     then_do (if nc then Inr []
              else then_do (position (m_cacheLimit s)) (\<lambda>clim.
                     pop_back_until (m_cache s) clim)) (\<lambda>c.
       Inr (s\<lparr>m_data := d, m_cache := c, m_underUndo := False\<rparr>)))))"

text \<open>
  The loop \<^verbatim>\<open>for(auto it = first; it != last; ++it) { f(acc, *it); }\<close> over the deque
  \<open>xs\<close>, used by \<^verbatim>\<open>emplaceBack\<close> and \<^verbatim>\<open>reduceTo\<close>, between two positions. The test is \<^verbatim>\<open>!=\<close>,
  so a first position beyond the last one runs off the end of the deque.
\<close>

function for_each ::
  "('s, 'a) combiner \<Rightarrow> 's \<Rightarrow> 'a list \<Rightarrow> nat \<Rightarrow> nat \<Rightarrow> fault + ('s \<times> 'a list)" where
  "for_each f acc xs it lim =
     (if it = lim then Inr (acc, xs)
      else if it < length xs then
        (case f acc (xs ! it) of
           (acc', x') \<Rightarrow> for_each f acc' (xs[it := x']) (Suc it) lim)
      else Inl OutOfRange)"
  by pat_completeness auto
termination
  by (relation "measure (\<lambda>(f, acc, xs, it, lim). length xs - it)") auto

declare for_each.simps [simp del]

text \<open>
  \<^verbatim>\<open>emplaceBack\<close>, in three pieces. \<open>push_data\<close> is the code after the label
  \<^verbatim>\<open>skip_cache:\<close>; \<open>make_cache\<close> is the \<^verbatim>\<open>if\<close>/\<^verbatim>\<open>else if\<close> that builds a checkpoint from
  the history as it is before the push. The checkpoint under construction is
  \<^verbatim>\<open>m_cache.back()\<close>, the accumulator of the loop; it is appended to \<open>m_cache\<close> when the
  loop is done. The reference that \<^verbatim>\<open>emplaceBack\<close> returns is the last element of
  \<open>m_data\<close> in the object returned here.
\<close>

definition push_data :: "'a cached_resource \<Rightarrow> 'a \<Rightarrow> 'a cached_resource" where
  "push_data s x =
     s\<lparr>m_data := m_data s @ [x], m_dataLimit := At (length (m_data s @ [x]))\<rparr>"

definition make_cache ::
  "nat \<Rightarrow> ('a, 'a) combiner \<Rightarrow> 'a cached_resource \<Rightarrow> fault + 'a cached_resource" where
  "make_cache g f s =
     (if length (m_data s) = g then
        then_do (deref (m_data s) 0) (\<lambda>x0.
        then_do (for_each f x0 (m_data s) 1 (length (m_data s))) (\<lambda>(c, d).
          Inr (s\<lparr>m_data := d, m_cache := m_cache s @ [c],
                 m_cacheLimit := At (length (m_cache s @ [c]))\<rparr>)))
      else if m_data s \<noteq> [] \<and> length (m_data s) mod g = 0 then
        then_do (getIteratorPastCache g s) (\<lambda>begin.
          if m_cache s = [] then Inl EmptyContainer
          else
            then_do (for_each f (last (m_cache s)) (m_data s) begin (length (m_data s)))
              (\<lambda>(c, d).
                Inr (s\<lparr>m_data := d, m_cache := m_cache s @ [c],
                       m_cacheLimit := At (length (m_cache s @ [c]))\<rparr>)))
      else Inr s)"

definition emplaceBack ::
  "nat \<Rightarrow> ('a, 'a) combiner \<Rightarrow> 'a cached_resource \<Rightarrow> 'a \<Rightarrow> fault + 'a cached_resource" where
  "emplaceBack g f s x =
     (if m_underUndo s then
        then_do (clearUndo s) (\<lambda>s1.
          if length (m_data s1) mod g = 0 then Inr (push_data s1 x)
          else then_do (make_cache g f s1) (\<lambda>s2. Inr (push_data s2 x)))
      else then_do (make_cache g f s) (\<lambda>s2. Inr (push_data s2 x)))"

text \<open>\<^verbatim>\<open>getLastCache\<close>: \<open>None\<close> is the null pointer, \<open>Some c\<close> a pointer to a checkpoint \<open>c\<close>.\<close>

definition getLastCache :: "'a cached_resource \<Rightarrow> fault + 'a option" where
  "getLastCache s =
     then_do (noCaches s) (\<lambda>nc.
       if nc then Inr None
       else then_do (position (m_cacheLimit s)) (\<lambda>clim.
              then_do (deref (m_cache s) (int clim - 1)) (\<lambda>c. Inr (Some c))))"

text \<open>
  \<^verbatim>\<open>reduceTo(T& value)\<close> returns the new accumulator and the object, whose elements the
  combiner may have written through its second argument: the checkpoint at
  \<^verbatim>\<open>m_cacheLimit - 1\<close> first, then the elements of the history.
\<close>

definition reduceTo ::
  "nat \<Rightarrow> ('a, 'a) combiner \<Rightarrow> 'a cached_resource \<Rightarrow> 'a \<Rightarrow> fault + ('a \<times> 'a cached_resource)" where
  "reduceTo g f s v =
     then_do (noCaches s) (\<lambda>nc.
       if nc then
         then_do (position (m_dataLimit s)) (\<lambda>lim.
         then_do (for_each f v (m_data s) 0 lim) (\<lambda>(v', d).
           Inr (v', s\<lparr>m_data := d\<rparr>)))
       else
         then_do (getLastCache s) (\<lambda>p.
           case p of
             None \<Rightarrow> Inl NullPointer
           | Some c \<Rightarrow>
               (case f v c of
                  (v1, c') \<Rightarrow>
                    then_do (position (m_cacheLimit s)) (\<lambda>clim.
                      let s1 = s\<lparr>m_cache := (m_cache s)[clim - 1 := c']\<rparr> in
                      then_do (getIteratorPastCache g s1) (\<lambda>begin.
                      then_do (position (m_dataLimit s1)) (\<lambda>lim.
                      then_do (for_each f v1 (m_data s1) begin lim) (\<lambda>(v', d).
                        Inr (v', s1\<lparr>m_data := d\<rparr>))))))))"

text \<open>
  \<^verbatim>\<open>reduceTo(F2 f)\<close>, the second overload, under a name of its own. The visitor is a
  function object held by value; its own state is the first argument and result
  here, and the element it is applied to may be taken by mutable reference.
\<close>

definition reduceToVisitor ::
  "nat \<Rightarrow> ('s, 'a) combiner \<Rightarrow> 'a cached_resource \<Rightarrow> 's \<Rightarrow> fault + ('s \<times> 'a cached_resource)" where
  "reduceToVisitor g f s v =
     then_do (noCaches s) (\<lambda>nc.
       if nc then
         then_do (position (m_dataLimit s)) (\<lambda>lim.
         then_do (for_each f v (m_data s) 0 lim) (\<lambda>(v', d).
           Inr (v', s\<lparr>m_data := d\<rparr>)))
       else
         then_do (getLastCache s) (\<lambda>p.
           case p of
             None \<Rightarrow> Inl NullPointer
           | Some c \<Rightarrow>
               (case f v c of
                  (v1, c') \<Rightarrow>
                    then_do (position (m_cacheLimit s)) (\<lambda>clim.
                      let s1 = s\<lparr>m_cache := (m_cache s)[clim - 1 := c']\<rparr> in
                      then_do (getIteratorPastCache g s1) (\<lambda>begin.
                      then_do (position (m_dataLimit s1)) (\<lambda>lim.
                      then_do (for_each f v1 (m_data s1) begin lim) (\<lambda>(v', d).
                        Inr (v', s1\<lparr>m_data := d\<rparr>))))))))"

text \<open>\<^verbatim>\<open>getLast\<close> is \<^verbatim>\<open>return *(m_dataLimit - 1);\<close> and nothing else.\<close>

definition getLast :: "'a cached_resource \<Rightarrow> fault + 'a" where
  "getLast s =
     then_do (position (m_dataLimit s)) (\<lambda>lim. deref (m_data s) (int lim - 1))"

definition underUndo :: "'a cached_resource \<Rightarrow> bool" where
  "underUndo s = m_underUndo s"

definition undo :: "nat \<Rightarrow> 'a cached_resource \<Rightarrow> fault + (bool \<times> 'a cached_resource)" where
  "undo g s =
     (let s1 = s\<lparr>m_underUndo := True\<rparr> in
      then_do (position (m_dataLimit s1)) (\<lambda>distance.
        if distance = 0 then Inr (False, s1)
        else
          (let s2 = s1\<lparr>m_dataLimit := At (distance - 1)\<rparr>;
               onCache = (distance mod g = 0)
           in then_do (noCaches s2) (\<lambda>nc.
                if \<not> nc \<and> onCache
                then then_do (position (m_cacheLimit s2)) (\<lambda>clim.
                       Inr (True, s2\<lparr>m_cacheLimit := At (clim - 1)\<rparr>))
                else Inr (True, s2)))))"

definition redo :: "nat \<Rightarrow> 'a cached_resource \<Rightarrow> fault + (bool \<times> 'a cached_resource)" where
  "redo g s =
     (if \<not> m_underUndo s then Inr (False, s)
      else
        then_do (position (m_dataLimit s)) (\<lambda>lim.
          let reachesEnd = (lim + 1 = length (m_data s));
              s1 = (if reachesEnd then s\<lparr>m_underUndo := False\<rparr> else s);
              val = \<not> reachesEnd;
              s2 = s1\<lparr>m_dataLimit := At (lim + 1)\<rparr>;
              distance = lim + 1
          in if m_cache s2 \<noteq> [] \<and> distance mod g = 0
             then then_do (position (m_cacheLimit s2)) (\<lambda>clim.
                    Inr (val, s2\<lparr>m_cacheLimit := At (clim + 1)\<rparr>))
             else Inr (val, s2)))"

subsection \<open>Sequences of calls\<close>

datatype 'a call = EmplaceBack 'a | Undo | Redo

fun step ::
  "nat \<Rightarrow> ('a, 'a) combiner \<Rightarrow> 'a cached_resource \<Rightarrow> 'a call \<Rightarrow> fault + 'a cached_resource" where
  "step g f s (EmplaceBack x) = emplaceBack g f s x"
| "step g f s Undo = then_do (undo g s) (\<lambda>(r, s'). Inr s')"
| "step g f s Redo = then_do (redo g s) (\<lambda>(r, s'). Inr s')"

fun run ::
  "nat \<Rightarrow> ('a, 'a) combiner \<Rightarrow> 'a cached_resource \<Rightarrow> 'a call list \<Rightarrow> fault + 'a cached_resource" where
  "run g f s [] = Inr s"
| "run g f s (c # cs) = then_do (step g f s c) (\<lambda>s'. run g f s' cs)"

text \<open>\<open>n\<close> calls of \<^verbatim>\<open>undo\<close>, and of \<^verbatim>\<open>redo\<close>, with the value each call returned.\<close>

fun undo_times ::
  "nat \<Rightarrow> nat \<Rightarrow> 'a cached_resource \<Rightarrow> fault + (bool list \<times> 'a cached_resource)" where
  "undo_times g 0 s = Inr ([], s)"
| "undo_times g (Suc n) s =
     then_do (undo g s) (\<lambda>(r, s').
     then_do (undo_times g n s') (\<lambda>(rs, s'').
       Inr (r # rs, s'')))"

fun redo_times ::
  "nat \<Rightarrow> nat \<Rightarrow> 'a cached_resource \<Rightarrow> fault + (bool list \<times> 'a cached_resource)" where
  "redo_times g 0 s = Inr ([], s)"
| "redo_times g (Suc n) s =
     then_do (redo g s) (\<lambda>(r, s').
     then_do (redo_times g n s') (\<lambda>(rs, s'').
       Inr (r # rs, s'')))"

text \<open>The combiner of the repository's test, \<^verbatim>\<open>[](int& dest, int& src) { dest += src; }\<close>.\<close>

definition adder :: "(int, int) combiner" where
  "adder dest src = (dest + src, src)"

text \<open>A visitor that counts its invocations and leaves the element alone.\<close>

definition counter :: "(nat, 'a) combiner" where
  "counter n x = (Suc n, x)"

subsection \<open>The folds the specification speaks of\<close>

text \<open>
  These are not translations of the source; they state what the specification
  compares the code with. A combiner with the signature the specification gives
  it, \<open>(accumulator: &mut T, next: &T)\<close>, does not write to its second argument.
\<close>

definition reads_only :: "('s, 'a) combiner \<Rightarrow> bool" where
  "reads_only f = (\<forall>a x. snd (f a x) = x)"

text \<open>
  What such a combiner makes of its accumulator, and "folding the history elements
  from scratch": the accumulator folded over the elements in order.
\<close>

definition comb :: "('s, 'a) combiner \<Rightarrow> 's \<Rightarrow> 'a \<Rightarrow> 's" where
  "comb f a x = fst (f a x)"

definition fold_from_scratch :: "('s, 'a) combiner \<Rightarrow> 's \<Rightarrow> 'a list \<Rightarrow> 's" where
  "fold_from_scratch f v xs = foldl (comb f) v xs"

text \<open>
  "The combiner-fold of history elements \<open>[0, n)\<close>": element 0 is the seed and the
  elements after it are folded in, in order. There is none for an empty range.
\<close>

fun cfold :: "('a, 'a) combiner \<Rightarrow> 'a list \<Rightarrow> 'a option" where
  "cfold f [] = None"
| "cfold f (x # xs) = Some (foldl (comb f) x xs)"

text \<open>
  The same fold as a value, for ranges that are not empty, and the object that the
  appends of \<open>xs\<close> to a new object produce: a checkpoint for every boundary strictly
  below the last element, since the checkpoint of a boundary is built by the append
  that follows it. An iterator is still singular as long as nothing was put into
  its deque.
\<close>

definition checkpoint_upto :: "('a, 'a) combiner \<Rightarrow> 'a list \<Rightarrow> nat \<Rightarrow> 'a" where
  "checkpoint_upto f xs n = foldl (comb f) (hd xs) (tl (take n xs))"

definition after_appends :: "nat \<Rightarrow> ('a, 'a) combiner \<Rightarrow> 'a list \<Rightarrow> 'a cached_resource" where
  "after_appends g f xs =
     \<lparr>m_data = xs,
      m_cache = map (\<lambda>i. checkpoint_upto f xs (Suc i * g)) [0..<(length xs - 1) div g],
      m_dataLimit = (if xs = [] then Singular else At (length xs)),
      m_cacheLimit = (if (length xs - 1) div g = 0 then Singular
                      else At ((length xs - 1) div g)),
      m_underUndo = False\<rparr>"

section \<open>Sequencing and the loops\<close>

lemma then_do_Inr:
  "then_do m k = Inr y \<longleftrightarrow> (\<exists>x. m = Inr x \<and> k x = Inr y)"
  by (cases m) simp_all


lemma for_each_reads_only:
  "reads_only f \<Longrightarrow> it \<le> lim \<Longrightarrow> lim \<le> length xs \<Longrightarrow>
   for_each f acc xs it lim = Inr (foldl (comb f) acc (take (lim - it) (drop it xs)), xs)"
proof (induction f acc xs it lim rule: for_each.induct)
  case (1 f acc xs it lim)
  show ?case
  proof (cases "it = lim")
    case True
    then show ?thesis by (simp add: for_each.simps)
  next
    case False
    with "1.prems" have lt: "it < lim" and inb: "it < length xs" by simp_all
    obtain a' x' where fx: "f acc (xs ! it) = (a', x')" by (cases "f acc (xs ! it)")
    from "1.prems"(1) fx have x': "x' = xs ! it"
      by (metis reads_only_def snd_conv)
    from fx have a': "a' = comb f acc (xs ! it)" by (simp add: comb_def)
    have upd: "xs[it := x'] = xs" using x' by simp
    have step: "for_each f acc xs it lim = for_each f a' xs (Suc it) lim"
      using False inb fx upd by (subst for_each.simps) simp
    have "for_each f a' (xs[it := x']) (Suc it) lim =
          Inr (foldl (comb f) a' (take (lim - Suc it) (drop (Suc it) (xs[it := x']))), xs[it := x'])"
      using "1.IH" [OF False inb fx [symmetric] "1.prems"(1)] lt "1.prems"(3) by simp
    then have ih: "for_each f a' xs (Suc it) lim =
          Inr (foldl (comb f) a' (take (lim - Suc it) (drop (Suc it) xs)), xs)"
      by (simp add: upd)
    have "take (lim - it) (drop it xs) = xs ! it # take (lim - Suc it) (drop (Suc it) xs)"
      using lt inb by (metis Cons_nth_drop_Suc Suc_diff_Suc take_Suc_Cons)
    then show ?thesis using step ih a' by simp
  qed
qed

section \<open>Appending to a new object\<close>

lemma div_pred_not_boundary:
  "n mod g \<noteq> 0 \<Longrightarrow> n div g = (n - 1) div g" for n g :: nat
  by (cases n) (simp_all add: div_Suc)

lemma div_pred_boundary:
  "0 < n \<Longrightarrow> n mod g = 0 \<Longrightarrow> n div g = Suc ((n - 1) div g)" for n g :: nat
  by (cases n) (simp_all add: div_Suc)

lemma pred_div_times:
  "0 < g \<Longrightarrow> 0 < n \<Longrightarrow> n mod g = 0 \<Longrightarrow> ((n - 1) div g) * g = n - g" for n g :: nat
proof -
  assume a: "0 < g" "0 < n" "n mod g = 0"
  have "(n div g) * g = n" using a(3) by (simp add: mod_eq_0_iff_dvd)
  then have "Suc ((n - 1) div g) * g = n" using div_pred_boundary [OF a(2,3)] by simp
  then show ?thesis by simp
qed

lemma checkpoint_upto_append:
  "0 < n \<Longrightarrow> n \<le> length xs \<Longrightarrow> checkpoint_upto f (xs @ ys) n = checkpoint_upto f xs n"
proof -
  assume a: "0 < n" "n \<le> length xs"
  then have "xs \<noteq> []" by auto
  then have "hd (xs @ ys) = hd xs" by simp
  moreover have "take n (xs @ ys) = take n xs" using a by simp
  ultimately show ?thesis by (simp only: checkpoint_upto_def)
qed

lemma checkpoint_upto_extend:
  "0 < m \<Longrightarrow> m \<le> n \<Longrightarrow> n \<le> length xs \<Longrightarrow>
   foldl (comb f) (checkpoint_upto f xs m) (take (n - m) (drop m xs)) = checkpoint_upto f xs n"
proof -
  assume a: "0 < m" "m \<le> n" "n \<le> length xs"
  have "take n xs = take m xs @ take (n - m) (drop m xs)"
    using a by (metis le_add_diff_inverse take_add)
  moreover have "take m xs \<noteq> []" using a by auto
  ultimately have "tl (take n xs) = tl (take m xs) @ take (n - m) (drop m xs)"
    by simp
  then show ?thesis by (simp add: checkpoint_upto_def)
qed

lemma getNumCaches_after_appends:
  "getNumCaches (after_appends g f xs) = Inr ((length xs - 1) div g)"
  by (simp add: getNumCaches_def after_appends_def)

lemma make_cache_after_appends:
  assumes g: "0 < g" and ro: "reads_only f"
  shows "make_cache g f (after_appends g f xs) =
         Inr ((after_appends g f xs)
               \<lparr>m_cache := map (\<lambda>i. checkpoint_upto f xs (Suc i * g)) [0..<length xs div g],
                m_cacheLimit := (if length xs div g = 0 then Singular
                                 else At (length xs div g))\<rparr>)"
proof -
  let ?N = "length xs"
  let ?c = "(?N - 1) div g"
  let ?s = "after_appends g f xs"
  consider (first) "?N = g" | (later) "?N \<noteq> g" "xs \<noteq> []" "?N mod g = 0"
    | (none) "?N \<noteq> g" "xs = [] \<or> ?N mod g \<noteq> 0" by blast
  then show ?thesis
  proof cases
    case first
    then have ne: "xs \<noteq> []" using g by auto
    have c0: "?c = 0" using first g by simp
    have d1: "?N div g = 1" using first g by simp
    have "for_each f (xs ! 0) xs 1 ?N =
          Inr (foldl (comb f) (xs ! 0) (take (?N - 1) (drop 1 xs)), xs)"
      using for_each_reads_only [OF ro, of 1 ?N xs "xs ! 0"] ne
      by (simp add: Suc_leI)
    moreover have "foldl (comb f) (xs ! 0) (take (?N - 1) (drop 1 xs)) = checkpoint_upto f xs g"
      using ne first by (simp add: checkpoint_upto_def hd_conv_nth drop_Suc)
    ultimately have fe: "for_each f (xs ! 0) xs (Suc 0) ?N = Inr (checkpoint_upto f xs g, xs)"
      by simp
    show ?thesis
      using first ne fe c0 d1 g
      by (simp add: make_cache_def after_appends_def deref_def)
  next
    case later
    have Npos: "0 < ?N" using later(2) by simp
    have dS: "?N div g = Suc ?c" using div_pred_boundary [OF Npos later(3)] .
    have cg: "?c * g = ?N - g" using pred_div_times [OF g Npos later(3)] .
    have "g \<le> ?N" using later(3) Npos g by (metis mod_less neq0_conv not_le)
    then have gl: "g < ?N" using later(1) by simp
    then have cgpos: "0 < ?c * g" using cg by simp
    then have cpos: "0 < ?c" by (cases ?c) simp_all
    have cgle: "?c * g \<le> ?N" using cg by simp
    have SN: "Suc ?c * g = ?N" using cg gl by simp
    have cne: "m_cache ?s \<noteq> []" using cpos by (simp add: after_appends_def)
    have lst: "last (m_cache ?s) = checkpoint_upto f xs (?c * g)"
      using cpos by (cases ?c) (simp_all add: after_appends_def)
    have it: "getIteratorPastCache g ?s = Inr (?c * g)"
      using cpos cgle later(2)
      by (simp add: getIteratorPastCache_def getNumCaches_after_appends)
         (simp add: after_appends_def)
    have "for_each f (checkpoint_upto f xs (?c * g)) xs (?c * g) ?N =
          Inr (foldl (comb f) (checkpoint_upto f xs (?c * g)) (take (?N - ?c * g) (drop (?c * g) xs)), xs)"
      using for_each_reads_only [OF ro cgle, of xs] by simp
    also have "foldl (comb f) (checkpoint_upto f xs (?c * g)) (take (?N - ?c * g) (drop (?c * g) xs))
               = checkpoint_upto f xs ?N"
      using checkpoint_upto_extend [OF cgpos cgle, of xs f] by simp
    finally have fe: "for_each f (last (m_cache ?s)) (m_data ?s) (?c * g) ?N
                      = Inr (checkpoint_upto f xs (Suc ?c * g), xs)"
      using lst SN by (simp add: after_appends_def)
    have "make_cache g f ?s =
          Inr (?s\<lparr>m_data := xs, m_cache := m_cache ?s @ [checkpoint_upto f xs (Suc ?c * g)],
                 m_cacheLimit := At (length (m_cache ?s @ [checkpoint_upto f xs (Suc ?c * g)]))\<rparr>)"
      using later cne fe it by (simp add: make_cache_def after_appends_def)
    then show ?thesis
      using dS by (simp add: after_appends_def)
  next
    case none
    have "?N div g = ?c"
      using none(2) div_pred_not_boundary [of ?N g] by auto
    moreover have "make_cache g f ?s = Inr ?s"
      using none by (auto simp add: make_cache_def after_appends_def)
    ultimately show ?thesis by (simp add: after_appends_def)
  qed
qed

lemma emplaceBack_after_appends:
  assumes g: "0 < g" and ro: "reads_only f"
  shows "emplaceBack g f (after_appends g f xs) x = Inr (after_appends g f (xs @ [x]))"
proof -
  have "\<And>i. i < length xs div g \<Longrightarrow>
          checkpoint_upto f (xs @ [x]) (Suc i * g) = checkpoint_upto f xs (Suc i * g)"
  proof -
    fix i assume "i < length xs div g"
    then have "Suc i \<le> length xs div g" by simp
    then have "Suc i * g \<le> (length xs div g) * g" by (rule mult_le_mono1)
    also have "\<dots> \<le> length xs" by simp
    finally have "Suc i * g \<le> length xs" .
    moreover have "0 < Suc i * g" using g by simp
    ultimately show "checkpoint_upto f (xs @ [x]) (Suc i * g) = checkpoint_upto f xs (Suc i * g)"
      by (rule checkpoint_upto_append [rotated])
  qed
  then have "map (\<lambda>i. checkpoint_upto f (xs @ [x]) (Suc i * g)) [0..<length xs div g] =
             map (\<lambda>i. checkpoint_upto f xs (Suc i * g)) [0..<length xs div g]"
    by simp
  then show ?thesis
    using make_cache_after_appends [OF g ro, of xs]
    by (simp add: emplaceBack_def push_data_def after_appends_def)
qed

lemma run_append:
  "run g f s (cs @ ds) = then_do (run g f s cs) (\<lambda>s'. run g f s' ds)"
proof (induction cs arbitrary: s)
  case Nil
  show ?case by simp
next
  case (Cons c cs)
  show ?case by (cases "step g f s c") (simp_all add: Cons.IH)
qed

lemma run_appends:
  assumes g: "0 < g" and ro: "reads_only f"
  shows "run g f fresh (map EmplaceBack xs) = Inr (after_appends g f xs)"
proof (induction xs rule: rev_induct)
  case Nil
  show ?case by (simp add: fresh_def after_appends_def)
next
  case (snoc x xs)
  then show ?case
    using emplaceBack_after_appends [OF g ro, of xs x]
    by (simp add: run_append)
qed

lemma cfold_checkpoint_upto:
  "0 < n \<Longrightarrow> n \<le> length xs \<Longrightarrow> cfold f (take n xs) = Some (checkpoint_upto f xs n)"
proof -
  assume a: "0 < n" "n \<le> length xs"
  then obtain y ys where xs: "xs = y # ys" by (cases xs) auto
  from a obtain m where n: "n = Suc m" by (cases n) auto
  show ?thesis by (simp add: xs n checkpoint_upto_def)
qed

text \<open>
  Claim C4, as amended. After \<open>N\<close> appends to a new object and no undo, with gap
  \<open>g \<ge> 1\<close> and a combiner that does not write to its second argument, every append
  succeeds, the history is the appended layers with \<^verbatim>\<open>m_dataLimit\<close> at its end, and the
  number of checkpoints, stored and as \<^verbatim>\<open>getNumCaches\<close> reads the cursor, is
  \<open>(N - 1) div g\<close> (0 for \<open>N = 0\<close>, where the subtraction of naturals stops at 0): the
  checkpoint of a boundary is built by the append that follows the boundary, so the
  boundary \<open>N\<close> itself has none yet. Checkpoint \<open>i\<close> below the cursor is the fold of the
  history elements \<open>[0, (i + 1) * g)\<close>, seeded with element 0.
\<close>

theorem checkpoints_after_appends:
  assumes "0 < g" and "reads_only f"
  shows "\<exists>s. run g f fresh (map EmplaceBack xs) = Inr s \<and>
             m_data s = xs \<and> \<not> m_underUndo s \<and>
             (xs \<noteq> [] \<longrightarrow> m_dataLimit s = At (length xs)) \<and>
             getNumCaches s = Inr ((length xs - 1) div g) \<and>
             length (m_cache s) = (length xs - 1) div g \<and>
             (m_cache s \<noteq> [] \<longrightarrow> m_cacheLimit s = At ((length xs - 1) div g)) \<and>
             (\<forall>i < (length xs - 1) div g.
                cfold f (take ((i + 1) * g) xs) = Some (m_cache s ! i))"
proof -
  let ?s = "after_appends g f xs"
  have run: "run g f fresh (map EmplaceBack xs) = Inr ?s"
    using assms by (rule run_appends)
  have "cfold f (take ((i + 1) * g) xs) = Some (m_cache ?s ! i)"
    if "i < (length xs - 1) div g" for i
  proof -
    from that have "Suc i \<le> (length xs - 1) div g" by simp
    then have "Suc i * g \<le> ((length xs - 1) div g) * g" by (rule mult_le_mono1)
    also have "\<dots> \<le> length xs - 1" by simp
    finally have le: "Suc i * g \<le> length xs" by simp
    have pos: "0 < Suc i * g" using assms(1) by simp
    show ?thesis
      using cfold_checkpoint_upto [OF pos le, of f] that
      by (simp add: after_appends_def)
  qed
  then show ?thesis
    using run getNumCaches_after_appends [of g f xs] by (simp add: after_appends_def)
qed

text \<open>The test's configuration: gap 3 and the layers 1 to 10; the last checkpoint is 45.\<close>

theorem checkpoints_after_appends_witness:
  "\<exists>s. run 3 adder fresh (map EmplaceBack [1, 2, 3, 4, 5, 6, 7, 8, 9, 10]) = Inr s \<and>
       getNumCaches s = Inr 3 \<and> m_cacheLimit s = At 3 \<and> m_dataLimit s = At 10 \<and>
       m_cache s ! 2 = 45"
proof -
  have g: "0 < (3::nat)" by simp
  have ro: "reads_only adder" by (simp add: reads_only_def adder_def)
  obtain s where s: "run 3 adder fresh (map EmplaceBack [1, 2, 3, 4, 5, 6, 7, 8, 9, 10]) = Inr s"
      "[1, 2, 3, 4, 5, 6, 7, 8, 9, 10::int] \<noteq> [] \<longrightarrow>
         m_dataLimit s = At (length [1, 2, 3, 4, 5, 6, 7, 8, 9, 10::int])"
      "getNumCaches s = Inr ((length [1, 2, 3, 4, 5, 6, 7, 8, 9, 10::int] - 1) div 3)"
      "length (m_cache s) = (length [1, 2, 3, 4, 5, 6, 7, 8, 9, 10::int] - 1) div 3"
      "m_cache s \<noteq> [] \<longrightarrow>
         m_cacheLimit s = At ((length [1, 2, 3, 4, 5, 6, 7, 8, 9, 10::int] - 1) div 3)"
      "\<forall>i < (length [1, 2, 3, 4, 5, 6, 7, 8, 9, 10::int] - 1) div 3.
         cfold adder (take ((i + 1) * 3) [1, 2, 3, 4, 5, 6, 7, 8, 9, 10]) = Some (m_cache s ! i)"
    using checkpoints_after_appends [OF g ro, of "[1, 2, 3, 4, 5, 6, 7, 8, 9, 10]"] by blast
  from s(2) have d: "m_dataLimit s = At 10" by simp
  from s(3) have n: "getNumCaches s = Inr 3" by simp
  from s(4) have "m_cache s \<noteq> []" by auto
  with s(5) have c: "m_cacheLimit s = At 3" by simp
  have "cfold adder (take ((2 + 1) * 3) [1, 2, 3, 4, 5, 6, 7, 8, 9, 10]) = Some 45"
    by (simp add: comb_def adder_def)
  moreover have "(2::nat) < (length [1, 2, 3, 4, 5, 6, 7, 8, 9, 10::int] - 1) div 3" by simp
  with s(6)
  have "cfold adder (take ((2 + 1) * 3) [1, 2, 3, 4, 5, 6, 7, 8, 9, 10]) = Some (m_cache s ! 2)"
    by blast
  ultimately have "m_cache s ! 2 = 45" by simp
  with s(1) d n c show ?thesis by blast
qed

text \<open>
  Claim C4 as stated, a checkpoint cursor of \<open>N div g\<close>, fails at \<open>N = g = 3\<close>: after three
  appends there is no checkpoint.
\<close>

theorem checkpoint_count_counterexample:
  "run 3 adder fresh (map EmplaceBack [1, 2, 3]) =
     Inr \<lparr>m_data = [1, 2, 3], m_cache = [], m_dataLimit = At 3, m_cacheLimit = Singular,
          m_underUndo = False\<rparr> \<and>
   getNumCaches \<lparr>m_data = [1, 2, 3::int], m_cache = [], m_dataLimit = At 3,
          m_cacheLimit = Singular, m_underUndo = False\<rparr> = Inr 0 \<and>
   (0::nat) \<noteq> length [1, 2, 3::int] div 3"
  by code_simp

section \<open>Undo\<close>

lemma getNumCaches_cases:
  "getNumCaches s = Inr c \<longleftrightarrow>
     (m_cache s = [] \<and> c = 0) \<or> (m_cache s \<noteq> [] \<and> m_cacheLimit s = At c)"
  by (cases "m_cacheLimit s") (auto simp add: getNumCaches_def)

lemma undo_at_zero:
  "m_dataLimit s = At 0 \<Longrightarrow> undo g s = Inr (False, s\<lparr>m_underUndo := True\<rparr>)"
  by (simp add: undo_def)

lemma undo_step:
  assumes "m_dataLimit s = At p" and "0 < p" and "getNumCaches s = Inr c"
  shows "undo g s =
         Inr (True, s\<lparr>m_underUndo := True, m_dataLimit := At (p - 1),
                      m_cacheLimit := (if 0 < c \<and> p mod g = 0 then At (c - 1)
                                       else m_cacheLimit s)\<rparr>)"
  using assms
  by (auto simp add: undo_def Let_def noCaches_def getNumCaches_cases getNumCaches_def)

lemma undo_step_cursor:
  assumes "m_dataLimit s = At p" and "0 < p" and "getNumCaches s = Inr c"
  shows "\<exists>s'. undo g s = Inr (True, s') \<and> m_data s' = m_data s \<and> m_cache s' = m_cache s \<and>
              m_underUndo s' \<and> m_dataLimit s' = At (p - 1) \<and>
              getNumCaches s' = Inr (if 0 < c \<and> p mod g = 0 then c - 1 else c)"
  using undo_step [OF assms, of g] assms(3)
  by (auto simp add: getNumCaches_cases)

text \<open>
  On an object whose iterators are set, \<^verbatim>\<open>undo\<close> does what its documentation says: it
  sets \<^verbatim>\<open>m_underUndo\<close>, leaves the two deques alone, returns false at position 0 without
  moving a cursor, and otherwise returns true, moves \<^verbatim>\<open>m_dataLimit\<close> back by one and the
  checkpoint cursor back by one exactly when \<^verbatim>\<open>!noCaches()\<close> holds and the position
  before the step is a multiple of the gap.
\<close>

lemma undo_on_set_iterators:
  assumes "m_dataLimit s = At p" and "getNumCaches s = Inr c"
  shows "\<exists>r s'. undo g s = Inr (r, s') \<and> m_underUndo s' \<and>
           m_data s' = m_data s \<and> m_cache s' = m_cache s \<and>
           (p = 0 \<longrightarrow> \<not> r \<and> m_dataLimit s' = At 0 \<and> m_cacheLimit s' = m_cacheLimit s) \<and>
           (p \<noteq> 0 \<longrightarrow> r \<and> m_dataLimit s' = At (p - 1) \<and>
              getNumCaches s' = Inr (if 0 < c \<and> p mod g = 0 then c - 1 else c))"
proof (cases "p = 0")
  case True
  then show ?thesis using assms(1) by (auto simp add: undo_at_zero)
next
  case False
  then have "0 < p" by simp
  from undo_step_cursor [OF assms(1) this assms(2), of g] False show ?thesis by auto
qed

text \<open>
  Claim C6 fails on the code, on the new object. There the valid history is empty,
  so \<^verbatim>\<open>undo\<close> should set \<^verbatim>\<open>m_underUndo\<close> and return false (its documentation: "false If
  already at oldest change"). But no constructor sets \<^verbatim>\<open>m_dataLimit\<close>, and \<^verbatim>\<open>undo\<close>
  takes \<^verbatim>\<open>std::distance(m_data.begin(), m_dataLimit)\<close> of the singular iterator and goes on
  to decrement it: undefined behaviour instead of the answer false.
\<close>

theorem undo_on_new_object:
  "undo g fresh = Inl SingularIterator"
  by (simp add: undo_def fresh_def)

lemma undo_times_ok:
  "m_dataLimit s = At p \<Longrightarrow> k \<le> p \<Longrightarrow> getNumCaches s = Inr c \<Longrightarrow>
   \<exists>s' c'. undo_times g k s = Inr (replicate k True, s') \<and>
     m_data s' = m_data s \<and> m_cache s' = m_cache s \<and>
     m_dataLimit s' = At (p - k) \<and>
     getNumCaches s' = Inr c' \<and> c' \<le> c \<and>
     (0 < k \<longrightarrow> m_underUndo s')"
proof (induction k arbitrary: s p c)
  case 0
  then show ?case by simp
next
  case (Suc k)
  from Suc.prems have pos: "0 < p" by simp
  from undo_step_cursor [OF Suc.prems(1) pos Suc.prems(3), of g]
  obtain s1 where s1: "undo g s = Inr (True, s1)" "m_data s1 = m_data s" "m_cache s1 = m_cache s"
      "m_underUndo s1" "m_dataLimit s1 = At (p - 1)"
      "getNumCaches s1 = Inr (if 0 < c \<and> p mod g = 0 then c - 1 else c)"
    by blast
  let ?c1 = "if 0 < c \<and> p mod g = 0 then c - 1 else c"
  have le: "k \<le> p - 1" using Suc.prems(2) by simp
  from Suc.IH [OF s1(5) le s1(6)]
  obtain s' c' where s': "undo_times g k s1 = Inr (replicate k True, s')"
      "m_data s' = m_data s1" "m_cache s' = m_cache s1" "m_dataLimit s' = At (p - 1 - k)"
      "getNumCaches s' = Inr c'" "c' \<le> ?c1" "0 < k \<longrightarrow> m_underUndo s'"
    by blast
  have uu: "m_underUndo s'"
  proof (cases k)
    case 0
    then show ?thesis using s'(1) s1(4) by simp
  next
    case (Suc j)
    then show ?thesis using s'(7) by simp
  qed
  have "c' \<le> c" using s'(6) by (simp split: if_splits)
  then show ?case
    using s1 s' uu by simp
qed

section \<open>Redo\<close>

lemma redo_step:
  assumes "m_underUndo s" and "m_dataLimit s = At p" and "getNumCaches s = Inr c"
  shows "\<exists>s' c'. redo g s = Inr (p + 1 \<noteq> length (m_data s), s') \<and>
           m_data s' = m_data s \<and> m_cache s' = m_cache s \<and>
           m_dataLimit s' = At (p + 1) \<and>
           m_underUndo s' = (p + 1 \<noteq> length (m_data s)) \<and>
           getNumCaches s' = Inr c'"
proof (cases "m_cache s = []")
  case True
  then show ?thesis
    using assms(1,2) by (simp add: redo_def Let_def getNumCaches_def)
next
  case False
  with assms(3) have cl: "m_cacheLimit s = At c" by (simp add: getNumCaches_cases)
  show ?thesis
  proof (cases "(p + 1) mod g = 0")
    case True
    then show ?thesis
      using assms(1,2) False cl by (simp add: redo_def Let_def getNumCaches_def)
  next
    case nb: False
    then show ?thesis
      using assms(1,2) False cl by (simp add: redo_def Let_def getNumCaches_def)
  qed
qed

lemma redo_times_ok:
  "m_underUndo s \<Longrightarrow> 0 < k \<Longrightarrow> m_dataLimit s = At p \<Longrightarrow> p + k = length (m_data s) \<Longrightarrow>
   getNumCaches s = Inr c \<Longrightarrow>
   \<exists>s'. redo_times g k s = Inr (replicate (k - 1) True @ [False], s') \<and>
     m_data s' = m_data s \<and>
     m_dataLimit s' = At (length (m_data s)) \<and>
     \<not> m_underUndo s'"
proof (induction k arbitrary: s p c)
  case 0
  then show ?case by simp
next
  case (Suc k)
  from redo_step [OF Suc.prems(1,3,5), of g]
  obtain s1 c1 where s1: "redo g s = Inr (p + 1 \<noteq> length (m_data s), s1)"
      "m_data s1 = m_data s" "m_dataLimit s1 = At (p + 1)"
      "m_underUndo s1 = (p + 1 \<noteq> length (m_data s))" "getNumCaches s1 = Inr c1"
    by blast
  show ?case
  proof (cases k)
    case 0
    then have "p + 1 = length (m_data s)" using Suc.prems by simp
    then show ?thesis using 0 s1 by simp
  next
    case (Suc j)
    then have ne: "p + 1 \<noteq> length (m_data s)" using Suc.prems by simp
    have kpos: "0 < k" using Suc by simp
    have uu: "m_underUndo s1" using s1(4) ne by simp
    have sum: "p + 1 + k = length (m_data s1)" using s1(2) Suc.prems(4) by simp
    from Suc.IH [OF uu kpos s1(3) sum s1(5)]
    obtain s' where "redo_times g k s1 = Inr (replicate (k - 1) True @ [False], s')"
      "m_data s' = m_data s1" "m_dataLimit s' = At (length (m_data s1))" "\<not> m_underUndo s'"
      by blast
    then show ?thesis using s1 ne Suc by simp
  qed
qed

text \<open>
  Claim C5. Outside undo mode \<^verbatim>\<open>redo\<close> returns false and changes nothing, on the new
  object too. In undo mode, on an object whose iterators are set (\<^verbatim>\<open>m_dataLimit\<close> is at
  a position and \<^verbatim>\<open>getNumCaches\<close> can read the checkpoint cursor, as on every object
  that a call of \<^verbatim>\<open>undo\<close> has returned from), it advances \<^verbatim>\<open>m_dataLimit\<close> by one, and
  it returns false exactly when that step lands on the end of the history, which is
  also exactly when it clears \<^verbatim>\<open>m_underUndo\<close>. Hence, on an object whose history cursor
  is at the end of \<open>N\<close> layers, \<open>k\<close> undos (\<open>0 < k \<le> N\<close>) all return true, and of the \<open>k\<close>
  redos that follow all return true but the last, which returns false, still moves
  the cursor to the end and leaves undo mode.
\<close>

theorem redo_effect:
  "(\<not> m_underUndo s \<longrightarrow> redo g s = Inr (False, s)) \<and>
   (m_underUndo s \<and> m_dataLimit s = At p \<and> getNumCaches s = Inr c \<longrightarrow>
      (\<exists>s'. redo g s = Inr (p + 1 \<noteq> length (m_data s), s') \<and>
            m_dataLimit s' = At (p + 1) \<and>
            m_underUndo s' = (p + 1 \<noteq> length (m_data s)))) \<and>
   (m_dataLimit s = At (length (m_data s)) \<and> getNumCaches s = Inr c \<and>
    0 < k \<and> k \<le> length (m_data s) \<longrightarrow>
      (\<exists>s1 s2. undo_times g k s = Inr (replicate k True, s1) \<and>
               redo_times g k s1 = Inr (replicate (k - 1) True @ [False], s2) \<and>
               m_dataLimit s2 = At (length (m_data s)) \<and>
               \<not> m_underUndo s2))"
proof (intro conjI impI)
  assume "\<not> m_underUndo s"
  then show "redo g s = Inr (False, s)" by (simp add: redo_def)
next
  assume "m_underUndo s \<and> m_dataLimit s = At p \<and> getNumCaches s = Inr c"
  then have a: "m_underUndo s" "m_dataLimit s = At p" "getNumCaches s = Inr c" by simp_all
  from redo_step [OF a, of g]
  show "\<exists>s'. redo g s = Inr (p + 1 \<noteq> length (m_data s), s') \<and>
             m_dataLimit s' = At (p + 1) \<and>
             m_underUndo s' = (p + 1 \<noteq> length (m_data s))"
    by blast
next
  assume "m_dataLimit s = At (length (m_data s)) \<and> getNumCaches s = Inr c \<and>
          0 < k \<and> k \<le> length (m_data s)"
  then have a: "m_dataLimit s = At (length (m_data s))" "getNumCaches s = Inr c"
      "0 < k" "k \<le> length (m_data s)" by simp_all
  from undo_times_ok [OF a(1) a(4) a(2), of g]
  obtain s1 c1 where s1: "undo_times g k s = Inr (replicate k True, s1)"
      "m_data s1 = m_data s" "m_dataLimit s1 = At (length (m_data s) - k)"
      "getNumCaches s1 = Inr c1" "m_underUndo s1"
    using a(3) by auto
  have sum: "length (m_data s) - k + k = length (m_data s1)" using a(4) s1(2) by simp
  from redo_times_ok [OF s1(5) a(3) s1(3) sum s1(4), of g]
  obtain s2 where "redo_times g k s1 = Inr (replicate (k - 1) True @ [False], s2)"
      "m_dataLimit s2 = At (length (m_data s1))" "\<not> m_underUndo s2"
    by blast
  with s1 show "\<exists>s1 s2. undo_times g k s = Inr (replicate k True, s1) \<and>
               redo_times g k s1 = Inr (replicate (k - 1) True @ [False], s2) \<and>
               m_dataLimit s2 = At (length (m_data s)) \<and>
               \<not> m_underUndo s2"
    by auto
qed

theorem redo_effect_witness:
  "redo 3 \<lparr>m_data = [1, 2, 3::int], m_cache = [], m_dataLimit = At 3, m_cacheLimit = Singular,
            m_underUndo = False\<rparr> =
     Inr (False, \<lparr>m_data = [1, 2, 3::int], m_cache = [], m_dataLimit = At 3,
                  m_cacheLimit = Singular, m_underUndo = False\<rparr>) \<and>
   (\<exists>s'. redo 3 \<lparr>m_data = [1, 2, 3::int], m_cache = [], m_dataLimit = At 1,
                  m_cacheLimit = Singular, m_underUndo = True\<rparr> = Inr (True, s') \<and>
          m_dataLimit s' = At 2 \<and> m_underUndo s') \<and>
   (\<exists>s1 s2. undo_times 3 3 \<lparr>m_data = [1, 2, 3::int], m_cache = [], m_dataLimit = At 3,
                m_cacheLimit = Singular, m_underUndo = False\<rparr> = Inr ([True, True, True], s1) \<and>
             redo_times 3 3 s1 = Inr ([True, True, False], s2) \<and>
             m_dataLimit s2 = At 3 \<and> \<not> m_underUndo s2)"
proof -
  let ?s = "\<lparr>m_data = [1, 2, 3::int], m_cache = [], m_dataLimit = At 3,
            m_cacheLimit = Singular, m_underUndo = False\<rparr>"
  let ?t = "\<lparr>m_data = [1, 2, 3::int], m_cache = [], m_dataLimit = At 1,
            m_cacheLimit = Singular, m_underUndo = True\<rparr>"
  have ns: "getNumCaches ?s = Inr 0" and nt: "getNumCaches ?t = Inr 0"
    by (simp_all add: getNumCaches_def)
  have r3: "replicate 3 True = [True, True, True]"
    and r2: "replicate (3 - 1) True @ [False] = [True, True, False]"
    by (simp_all add: numeral_3_eq_3)
  have a: "redo 3 ?s = Inr (False, ?s)"
    using redo_effect [of ?s 3 3 0 3] by simp
  have "\<exists>s'. redo 3 ?t = Inr (1 + 1 \<noteq> length (m_data ?t), s') \<and>
             m_dataLimit s' = At (1 + 1) \<and>
             m_underUndo s' = (1 + 1 \<noteq> length (m_data ?t))"
    using redo_effect [of ?t 3 1 0 1] nt by simp
  then have b: "\<exists>s'. redo 3 ?t = Inr (True, s') \<and> m_dataLimit s' = At 2 \<and> m_underUndo s'"
    by (simp add: numeral_2_eq_2)
  have "\<exists>s1 s2. undo_times 3 3 ?s = Inr (replicate 3 True, s1) \<and>
               redo_times 3 3 s1 = Inr (replicate (3 - 1) True @ [False], s2) \<and>
               m_dataLimit s2 = At (length (m_data ?s)) \<and> \<not> m_underUndo s2"
    using redo_effect [of ?s 3 3 0 3] ns by simp
  then have c: "\<exists>s1 s2. undo_times 3 3 ?s = Inr ([True, True, True], s1) \<and>
               redo_times 3 3 s1 = Inr ([True, True, False], s2) \<and>
               m_dataLimit s2 = At 3 \<and> \<not> m_underUndo s2"
    unfolding r3 r2 by (simp add: numeral_3_eq_3)
  from a b c show ?thesis by blast
qed

section \<open>The most recent layer\<close>

lemma observable_fault: "r = Inl e \<Longrightarrow> observable r = UNIV"
  by (simp add: observable_def)

text \<open>
  Claim C9, as amended. With \<^verbatim>\<open>m_dataLimit\<close> at a position \<open>p\<close> inside the history and
  \<open>p > 0\<close>, \<^verbatim>\<open>getLast\<close> returns the element at position \<open>p - 1\<close>. The function tests
  nothing. At position 0 it dereferences the position before the beginning, and on
  the new object it reads a singular iterator: both are undefined behaviour, after
  which a caller may observe anything, an abort as well as the silent return of
  any value.
\<close>

theorem getLast_spec:
  "(m_dataLimit s = At p \<and> 0 < p \<and> p \<le> length (m_data s) \<longrightarrow>
      getLast s = Inr (m_data s ! (p - 1))) \<and>
   (m_dataLimit s = At 0 \<longrightarrow>
      getLast s = Inl OutOfRange \<and> observable (getLast s) = UNIV) \<and>
   (m_dataLimit s = Singular \<longrightarrow>
      getLast s = Inl SingularIterator \<and> observable (getLast s) = UNIV)"
proof (intro conjI impI)
  assume a: "m_dataLimit s = At p \<and> 0 < p \<and> p \<le> length (m_data s)"
  then have "nat (int p - 1) = p - 1" by simp
  with a show "getLast s = Inr (m_data s ! (p - 1))"
    by (simp add: getLast_def deref_def)
next
  assume "m_dataLimit s = At 0"
  then show "getLast s = Inl OutOfRange" by (simp add: getLast_def deref_def)
  then show "observable (getLast s) = UNIV" by (rule observable_fault)
next
  assume "m_dataLimit s = Singular"
  then show "getLast s = Inl SingularIterator" by (simp add: getLast_def)
  then show "observable (getLast s) = UNIV" by (rule observable_fault)
qed

theorem getLast_spec_witness:
  "getLast \<lparr>m_data = [1, 2, 3::int], m_cache = [], m_dataLimit = At 2, m_cacheLimit = Singular,
            m_underUndo = True\<rparr> = Inr 2 \<and>
   observable (getLast \<lparr>m_data = [1, 2, 3::int], m_cache = [], m_dataLimit = At 0,
            m_cacheLimit = Singular, m_underUndo = True\<rparr>) = UNIV \<and>
   observable (getLast (fresh :: int cached_resource)) = UNIV"
proof -
  let ?a = "\<lparr>m_data = [1, 2, 3::int], m_cache = [], m_dataLimit = At 2,
            m_cacheLimit = Singular, m_underUndo = True\<rparr>"
  let ?b = "\<lparr>m_data = [1, 2, 3::int], m_cache = [], m_dataLimit = At 0,
            m_cacheLimit = Singular, m_underUndo = True\<rparr>"
  have "getLast ?a = Inr (m_data ?a ! (2 - 1))"
    using getLast_spec [of ?a 2] by simp
  then have a: "getLast ?a = Inr 2" by simp
  have b: "observable (getLast ?b) = UNIV"
    using getLast_spec [of ?b 0] by (simp add: observable_def)
  have c: "observable (getLast (fresh :: int cached_resource)) = UNIV"
    using getLast_spec [of "fresh :: int cached_resource" 0] by (simp add: fresh_def observable_def)
  from a b c show ?thesis by blast
qed

text \<open>
  Claim C9 as stated, a loud failure rather than a silently returned value, fails
  after one append and one undo: the read is out of range, nothing in the code
  signals it, and the silent return of 777 is one of the behaviours the call may
  show.
\<close>

theorem getLast_silent_counterexample:
  "run 3 adder fresh [EmplaceBack 777, Undo] =
     Inr \<lparr>m_data = [777], m_cache = [], m_dataLimit = At 0, m_cacheLimit = Singular,
          m_underUndo = True\<rparr> \<and>
   getLast \<lparr>m_data = [777::int], m_cache = [], m_dataLimit = At 0, m_cacheLimit = Singular,
          m_underUndo = True\<rparr> = Inl OutOfRange \<and>
   Returns 777 \<in> observable (getLast \<lparr>m_data = [777::int], m_cache = [], m_dataLimit = At 0,
          m_cacheLimit = Singular, m_underUndo = True\<rparr>)"
proof (intro conjI)
  show "run 3 adder fresh [EmplaceBack 777, Undo] =
     Inr \<lparr>m_data = [777], m_cache = [], m_dataLimit = At 0, m_cacheLimit = Singular,
          m_underUndo = True\<rparr>"
    by code_simp
  show "getLast \<lparr>m_data = [777::int], m_cache = [], m_dataLimit = At 0, m_cacheLimit = Singular,
          m_underUndo = True\<rparr> = Inl OutOfRange"
    by code_simp
  then show "Returns 777 \<in> observable (getLast \<lparr>m_data = [777::int], m_cache = [],
          m_dataLimit = At 0, m_cacheLimit = Singular, m_underUndo = True\<rparr>)"
    by (simp add: observable_def)
qed

section \<open>Appending in undo mode\<close>










section \<open>The queries change nothing\<close>

lemma for_each_frame:
  "reads_only f \<Longrightarrow> for_each f acc xs it lim = Inr (r, ys) \<Longrightarrow> ys = xs"
proof (induction f acc xs it lim rule: for_each.induct)
  case (1 f acc xs it lim)
  show ?case
  proof (cases "it = lim")
    case True
    with "1.prems" show ?thesis by (simp add: for_each.simps)
  next
    case False
    show ?thesis
    proof (cases "it < length xs")
      case inb: True
      obtain a' x' where fx: "f acc (xs ! it) = (a', x')" by (cases "f acc (xs ! it)")
      from "1.prems"(1) fx have "x' = xs ! it" by (metis reads_only_def snd_conv)
      then have upd: "xs[it := x'] = xs" by simp
      have "for_each f acc xs it lim = for_each f a' (xs[it := x']) (Suc it) lim"
        using False inb fx by (subst for_each.simps) simp
      with "1.prems"(2) have "for_each f a' (xs[it := x']) (Suc it) lim = Inr (r, ys)" by simp
      from "1.IH" [OF False inb fx [symmetric] "1.prems"(1) this] upd show ?thesis by simp
    next
      case False
      with \<open>it \<noteq> lim\<close> "1.prems"(2) show ?thesis by (simp add: for_each.simps)
    qed
  qed
qed

lemma reads_only_snd: "reads_only f \<Longrightarrow> f a x = (a', x') \<Longrightarrow> x' = x"
  by (metis reads_only_def snd_conv)

lemma getLastCache_Some:
  "getLastCache s = Inr (Some c) \<Longrightarrow>
   \<exists>k. m_cacheLimit s = At k \<and> 0 < k \<and> k \<le> length (m_cache s) \<and> c = m_cache s ! (k - 1)"
proof -
  assume a: "getLastCache s = Inr (Some c)"
  then obtain nc where nc: "noCaches s = Inr nc"
    by (auto simp add: getLastCache_def then_do_Inr)
  with a have "\<not> nc" by (auto simp add: getLastCache_def)
  with a nc obtain k where k: "position (m_cacheLimit s) = Inr k"
      "deref (m_cache s) (int k - 1) = Inr c"
    by (auto simp add: getLastCache_def then_do_Inr)
  from k(1) have at: "m_cacheLimit s = At k" by (cases "m_cacheLimit s") simp_all
  from k(2) have "0 \<le> int k - 1" "int k - 1 < int (length (m_cache s))"
      "c = m_cache s ! nat (int k - 1)"
    by (auto simp add: deref_def split: if_splits)
  then have "0 < k" "k \<le> length (m_cache s)" "c = m_cache s ! (k - 1)"
    by (simp_all add: nat_diff_distrib')
  with at show ?thesis by blast
qed

lemma reduceToVisitor_frame:
  assumes ro: "reads_only h" and r: "reduceToVisitor g h s w = Inr (r, s')"
  shows "s' = s"
proof -
  from r obtain nc where nc: "noCaches s = Inr nc"
    by (auto simp add: reduceToVisitor_def then_do_Inr)
  show ?thesis
  proof (cases nc)
    case True
    with r nc obtain lim d where fe: "for_each h w (m_data s) 0 lim = Inr (r, d)"
      and s': "s' = s\<lparr>m_data := d\<rparr>"
      by (auto simp add: reduceToVisitor_def then_do_Inr)
    from for_each_frame [OF ro fe] s' show ?thesis by simp
  next
    case False
    with r nc obtain c where glc: "getLastCache s = Inr (Some c)"
      by (auto simp add: reduceToVisitor_def then_do_Inr split: option.splits)
    from getLastCache_Some [OF glc] obtain k where k: "m_cacheLimit s = At k"
      "c = m_cache s ! (k - 1)" by blast
    obtain v1 c' where hc: "h w c = (v1, c')" by (cases "h w c")
    from reads_only_snd [OF ro hc] have c': "c' = c" .
    have s1: "s\<lparr>m_cache := (m_cache s)[k - 1 := c']\<rparr> = s"
      using k(2) c' by simp
    from r nc False glc hc k(1) s1 obtain b lim d where
      fe: "for_each h v1 (m_data s) b lim = Inr (r, d)"
      and s': "s' = s\<lparr>m_data := d\<rparr>"
      by (auto simp add: reduceToVisitor_def then_do_Inr)
    from for_each_frame [OF ro fe] s' show ?thesis by simp
  qed
qed

lemma reduceToVisitor_value:
  assumes ro: "reads_only h"
    and d: "m_dataLimit s = At p" and b1: "p \<le> length (m_data s)"
    and n: "getNumCaches s = Inr c" and b2: "c \<le> length (m_cache s)"
  shows "reduceToVisitor g h s w =
         Inr (if c = 0 then foldl (comb h) w (take p (m_data s))
              else foldl (comb h) (comb h w (m_cache s ! (c - 1)))
                     (take (p - min p (c * g)) (drop (min p (c * g)) (m_data s))), s)"
proof (cases "c = 0")
  case True
  have "for_each h w (m_data s) 0 p = Inr (foldl (comb h) w (take p (m_data s)), m_data s)"
    using for_each_reads_only [OF ro _ b1, of 0 w] by simp
  with True d n show ?thesis by (simp add: reduceToVisitor_def noCaches_def)
next
  case False
  with n have ne: "m_cache s \<noteq> []" and cl: "m_cacheLimit s = At c"
    by (auto simp add: getNumCaches_cases)
  let ?c = "m_cache s ! (c - 1)"
  have "nat (int c - 1) = c - 1" by simp
  then have glc: "getLastCache s = Inr (Some ?c)"
    using False n cl b2 by (simp add: getLastCache_def noCaches_def deref_def)
  obtain v1 c' where hc: "h w ?c = (v1, c')" by (cases "h w ?c")
  from reads_only_snd [OF ro hc] have c': "c' = ?c" .
  from hc have v1: "v1 = comb h w ?c" by (simp add: comb_def)
  have s1: "s\<lparr>m_cache := (m_cache s)[c - 1 := c']\<rparr> = s"
    using c' by simp
  have it: "getIteratorPastCache g s = Inr (min p (c * g))"
    using n d by (simp add: getIteratorPastCache_def)
  have "min p (c * g) \<le> p" by simp
  from for_each_reads_only [OF ro this b1, of v1]
  have "for_each h v1 (m_data s) (min p (c * g)) p =
        Inr (foldl (comb h) v1 (take (p - min p (c * g))
               (drop (min p (c * g)) (m_data s))), m_data s)" .
  with False n glc hc s1 v1 cl d it show ?thesis
    by (simp add: reduceToVisitor_def noCaches_def)
qed

lemma reduceTo_is_visitor: "reduceTo g f s v = reduceToVisitor g f s v"
  by (simp add: reduceTo_def reduceToVisitor_def)

text \<open>
  Claim C10. \<^verbatim>\<open>getLastCache\<close>, \<^verbatim>\<open>getLast\<close> and \<^verbatim>\<open>underUndo\<close> contain no assignment; the
  model gives them the object and gets a value back, so they cannot change the
  object. The two forms of \<^verbatim>\<open>reduceTo\<close> hand elements of both deques to the combiner
  (or visitor) by mutable reference. If that function does not write to its second
  argument, then whenever \<^verbatim>\<open>reduceTo\<close> returns, the object it leaves is the object it
  was given: both deques, both cursors and the flag. With both cursors set and
  inside their deques it does return.
\<close>

theorem queries_leave_state:
  assumes "reads_only f" and "reads_only h"
  shows "(\<forall>v r s'. reduceTo g f s v = Inr (r, s') \<longrightarrow> s' = s) \<and>
         (\<forall>w r s'. reduceToVisitor g h s w = Inr (r, s') \<longrightarrow> s' = s) \<and>
         (m_dataLimit s = At p \<and> p \<le> length (m_data s) \<and>
          getNumCaches s = Inr c \<and> c \<le> length (m_cache s) \<longrightarrow>
            (\<forall>v. \<exists>r. reduceTo g f s v = Inr (r, s)) \<and>
            (\<forall>w. \<exists>r. reduceToVisitor g h s w = Inr (r, s)))"
proof (intro conjI allI impI)
  fix v r s'
  assume "reduceTo g f s v = Inr (r, s')"
  then have "reduceToVisitor g f s v = Inr (r, s')" by (simp add: reduceTo_is_visitor)
  with assms(1) show "s' = s" by (rule reduceToVisitor_frame)
next
  fix w r s'
  assume "reduceToVisitor g h s w = Inr (r, s')"
  with assms(2) show "s' = s" by (rule reduceToVisitor_frame)
next
  fix v
  assume "m_dataLimit s = At p \<and> p \<le> length (m_data s) \<and>
          getNumCaches s = Inr c \<and> c \<le> length (m_cache s)"
  then have a: "m_dataLimit s = At p" "p \<le> length (m_data s)"
      "getNumCaches s = Inr c" "c \<le> length (m_cache s)" by simp_all
  show "\<exists>r. reduceTo g f s v = Inr (r, s)"
    unfolding reduceTo_is_visitor reduceToVisitor_value [OF assms(1) a] by blast
next
  fix w
  assume "m_dataLimit s = At p \<and> p \<le> length (m_data s) \<and>
          getNumCaches s = Inr c \<and> c \<le> length (m_cache s)"
  then have a: "m_dataLimit s = At p" "p \<le> length (m_data s)"
      "getNumCaches s = Inr c" "c \<le> length (m_cache s)" by simp_all
  show "\<exists>r. reduceToVisitor g h s w = Inr (r, s)"
    unfolding reduceToVisitor_value [OF assms(2) a] by blast
qed

theorem queries_leave_state_witness:
  "\<exists>r. reduceTo 3 adder \<lparr>m_data = [1, 2, 3, 4, 5], m_cache = [6], m_dataLimit = At 5,
                          m_cacheLimit = At 1, m_underUndo = False\<rparr> 0 =
        Inr (r, \<lparr>m_data = [1, 2, 3, 4, 5], m_cache = [6], m_dataLimit = At 5,
                 m_cacheLimit = At 1, m_underUndo = False\<rparr>)"
proof -
  let ?s = "\<lparr>m_data = [1, 2, 3, 4, 5::int], m_cache = [6], m_dataLimit = At 5,
             m_cacheLimit = At 1, m_underUndo = False\<rparr>"
  have ro: "reads_only adder" by (simp add: reads_only_def adder_def)
  have ro': "reads_only (counter :: (nat, int) combiner)" by (simp add: reads_only_def counter_def)
  have n: "getNumCaches ?s = Inr 1" by (simp add: getNumCaches_def)
  show ?thesis
    using queries_leave_state [OF ro ro', of 3 ?s 5 1] n by simp
qed

text \<open>The proviso is needed: a combiner that zeroes its second argument rewrites the history.\<close>

lemma writing_combiner_changes_state:
  "reduceTo 3 (\<lambda>dest src. (dest + src, 0))
     \<lparr>m_data = [1, 2::int], m_cache = [], m_dataLimit = At 2, m_cacheLimit = Singular,
      m_underUndo = False\<rparr> 0 =
   Inr (3, \<lparr>m_data = [0, 0], m_cache = [], m_dataLimit = At 2, m_cacheLimit = Singular,
            m_underUndo = False\<rparr>)"
  by code_simp

section \<open>Reduction after appends alone\<close>

text \<open>
  On the object that appends alone produce, \<^verbatim>\<open>reduceTo\<close> with an associative combiner
  is the fold of the whole history from scratch, and it makes at most \<open>g + 1\<close> calls
  of the combiner or visitor: one for the checkpoint and at most \<open>g\<close> for elements.
\<close>

lemma foldl_assoc_shift:
  assumes "\<And>a b c. F (F a b) c = F a (F b c)"
  shows "F v (foldl F x ys) = foldl F (F v x) ys"
  by (induction ys arbitrary: x) (simp_all add: assms)

lemma after_appends_bounds:
  "xs \<noteq> [] \<Longrightarrow> m_dataLimit (after_appends g f xs) = At (length xs)"
  "m_data (after_appends g f xs) = xs"
  "length (m_cache (after_appends g f xs)) = (length xs - 1) div g"
  by (simp_all add: after_appends_def)

lemma reduceTo_after_appends:
  assumes g: "0 < g" and ro: "reads_only f" and ne: "xs \<noteq> []"
    and assoc: "\<And>a b c. comb f (comb f a b) c = comb f a (comb f b c)"
  shows "reduceTo g f (after_appends g f xs) v =
         Inr (fold_from_scratch f v xs, after_appends g f xs)"
proof -
  let ?N = "length xs"
  let ?c = "(?N - 1) div g"
  let ?s = "after_appends g f xs"
  have d: "m_dataLimit ?s = At ?N" using ne by (rule after_appends_bounds)
  have b1: "?N \<le> length (m_data ?s)" by (simp add: after_appends_bounds)
  have n: "getNumCaches ?s = Inr ?c" by (rule getNumCaches_after_appends)
  have b2: "?c \<le> length (m_cache ?s)" by (simp add: after_appends_bounds)
  note val = reduceToVisitor_value [OF ro d b1 n b2, of g v]
  have md: "m_data ?s = xs" by (rule after_appends_bounds)
  show ?thesis
  proof (cases "?c = 0")
    case True
    then show ?thesis
      unfolding reduceTo_is_visitor val fold_from_scratch_def md by simp
  next
    case False
    then have cpos: "0 < ?c" by simp
    have "?c * g \<le> ?N - 1" by simp
    then have cgle: "?c * g \<le> ?N" by (rule le_trans) simp
    have cgpos: "0 < ?c * g" using cpos g by simp
    let ?cp = "checkpoint_upto f xs (?c * g)"
    have eq: "g + (?c - Suc 0) * g = ?c * g"
      using cpos by (cases ?c) simp_all
    have nth: "m_cache ?s ! (?c - 1) = ?cp"
      using cpos eq by (simp add: after_appends_def)
    have mn: "min ?N (?c * g) = ?c * g" using cgle by simp
    have nz: "take (?c * g) xs \<noteq> []" using cgpos cgle by auto
    obtain y ys where tk: "take (?c * g) xs = y # ys" using nz by (cases "take (?c * g) xs") auto
    have hd: "hd xs = y" using tk cgpos by (metis hd_take list.sel(1))
    have "comb f v ?cp = comb f v (foldl (comb f) y ys)"
      using tk hd by (simp add: checkpoint_upto_def)
    also have "\<dots> = foldl (comb f) (comb f v y) ys"
      using assoc by (rule foldl_assoc_shift)
    also have "\<dots> = foldl (comb f) v (take (?c * g) xs)"
      by (simp only: tk foldl.simps)
    finally have v1eq: "comb f v ?cp = foldl (comb f) v (take (?c * g) xs)" .
    have "foldl (comb f) v xs = foldl (comb f) v (take (?c * g) xs @ drop (?c * g) xs)"
      by simp
    also have "\<dots> = foldl (comb f) (comb f v ?cp) (drop (?c * g) xs)"
      by (simp only: foldl_append v1eq)
    finally have tot: "foldl (comb f) (comb f v ?cp) (take (?N - ?c * g) (drop (?c * g) xs)) =
                       foldl (comb f) v xs"
      by simp
    show ?thesis
      unfolding reduceTo_is_visitor val fold_from_scratch_def md mn nth
      using False tot by simp
  qed
qed

lemma foldl_counter: "foldl (comb counter) n ys = n + length ys"
  by (induction ys arbitrary: n) (simp_all add: comb_def counter_def)

lemma visits_after_appends:
  assumes g: "0 < g" and ne: "xs \<noteq> []"
  shows "\<exists>n. reduceToVisitor g counter (after_appends g f xs) 0 =
               Inr (n, after_appends g f xs) \<and> n \<le> g + 1"
proof -
  let ?N = "length xs"
  let ?c = "(?N - 1) div g"
  let ?s = "after_appends g f xs"
  have ro: "reads_only (counter :: (nat, 'a) combiner)"
    by (simp add: reads_only_def counter_def)
  have d: "m_dataLimit ?s = At ?N" using ne by (rule after_appends_bounds)
  have b1: "?N \<le> length (m_data ?s)" by (simp add: after_appends_bounds)
  have n: "getNumCaches ?s = Inr ?c" by (rule getNumCaches_after_appends)
  have b2: "?c \<le> length (m_cache ?s)" by (simp add: after_appends_bounds)
  note val = reduceToVisitor_value [OF ro d b1 n b2, of g 0]
  have md: "m_data ?s = xs" by (rule after_appends_bounds)
  have rem: "?N - 1 - ?c * g < g"
    using g by (metis minus_div_mult_eq_mod mod_less_divisor)
  show ?thesis
  proof (cases "?c = 0")
    case True
    from True rem have "?N \<le> g" by simp
    then show ?thesis
      unfolding val md using True by (simp add: foldl_counter)
  next
    case False
    have "?c * g \<le> ?N - 1" by simp
    then have cgle: "?c * g \<le> ?N" by (rule le_trans) simp
    have mn: "min ?N (?c * g) = ?c * g" using cgle by simp
    from rem have "?N - ?c * g \<le> g" by simp
    then show ?thesis
      unfolding val md mn using False cgle by (simp add: foldl_counter comb_def counter_def)
  qed
qed

section \<open>Every object but the new one has its iterators set\<close>

text \<open>
  \<^verbatim>\<open>emplaceBack\<close> assigns \<^verbatim>\<open>m_dataLimit\<close>, and \<^verbatim>\<open>m_cacheLimit\<close> whenever it puts a checkpoint
  into \<^verbatim>\<open>m_cache\<close>; \<^verbatim>\<open>undo\<close> on the new object does not return, \<^verbatim>\<open>redo\<close> on it does
  nothing. So an object reached from the new one is the new one, or \<^verbatim>\<open>m_dataLimit\<close> is
  at a position and \<^verbatim>\<open>getNumCaches\<close> reads the checkpoint cursor: the hypotheses under
  which the theorems on \<^verbatim>\<open>redo\<close>, \<^verbatim>\<open>getLast\<close> and \<^verbatim>\<open>reduceTo\<close> are stated.
\<close>

lemma emplaceBack_sets_iterators:
  assumes "emplaceBack g f s x = Inr s'"
    and "m_cache s \<noteq> [] \<longrightarrow> m_cacheLimit s \<noteq> Singular"
  shows "(\<exists>p. m_dataLimit s' = At p) \<and> (\<exists>c. getNumCaches s' = Inr c)"
proof -
  have mk: "(\<exists>c. getNumCaches t' = Inr c)"
    if "make_cache g f t = Inr t'" "m_cache t \<noteq> [] \<longrightarrow> m_cacheLimit t \<noteq> Singular" for t t'
    using that
    by (cases "m_cacheLimit t")
       (auto simp add: make_cache_def then_do_Inr getNumCaches_def split: if_splits)
  have cu: "m_cache t' \<noteq> [] \<longrightarrow> m_cacheLimit t' \<noteq> Singular"
    if "clearUndo s = Inr t'" for t'
    using that assms(2)
    by (auto simp add: clearUndo_def then_do_Inr split: if_splits)
  have pd: "getNumCaches (push_data t x) = getNumCaches t" for t
    by (simp add: push_data_def getNumCaches_def)
  have gn: "\<exists>c. getNumCaches t = Inr c"
    if "m_cache t \<noteq> [] \<longrightarrow> m_cacheLimit t \<noteq> Singular" for t :: "'a cached_resource"
    using that by (cases "m_cacheLimit t") (auto simp add: getNumCaches_def)
  have ng: "m_cache t \<noteq> [] \<longrightarrow> m_cacheLimit t \<noteq> Singular"
    if "getNumCaches t = Inr c" for t :: "'a cached_resource" and c
    using that by (auto simp add: getNumCaches_def split: if_splits)
  from assms(1) obtain t where t: "s' = push_data t x"
    and t': "(m_cache t \<noteq> [] \<longrightarrow> m_cacheLimit t \<noteq> Singular)"
    using cu mk ng assms(2)
    by (auto simp add: emplaceBack_def then_do_Inr split: if_splits) blast+
  have "\<exists>p. m_dataLimit s' = At p" using t by (simp add: push_data_def)
  moreover have "\<exists>c. getNumCaches s' = Inr c" using t pd gn [OF t'] by simp
  ultimately show ?thesis by blast
qed

lemma step_keeps_iterators_set:
  assumes "step g f s c = Inr s'"
    and "s = fresh \<or> ((\<exists>p. m_dataLimit s = At p) \<and> (\<exists>n. getNumCaches s = Inr n))"
  shows "s' = fresh \<or> ((\<exists>p. m_dataLimit s' = At p) \<and> (\<exists>n. getNumCaches s' = Inr n))"
proof (cases c)
  case (EmplaceBack x)
  have "m_cache s \<noteq> [] \<longrightarrow> m_cacheLimit s \<noteq> Singular"
    using assms(2) by (auto simp add: fresh_def getNumCaches_def split: if_splits)
  with assms(1) EmplaceBack show ?thesis
    using emplaceBack_sets_iterators [of g f s x s'] by simp
next
  case Undo
  with assms(1) obtain r where u: "undo g s = Inr (r, s')"
    by (auto simp add: then_do_Inr)
  then have "s \<noteq> fresh" by (auto simp add: undo_def fresh_def)
  with assms(2) obtain p n where pn: "m_dataLimit s = At p" "getNumCaches s = Inr n" by blast
  from undo_on_set_iterators [OF pn, of g] u
  have "m_cache s' = m_cache s" and
    "(p = 0 \<longrightarrow> m_dataLimit s' = At 0 \<and> m_cacheLimit s' = m_cacheLimit s) \<and>
     (p \<noteq> 0 \<longrightarrow> m_dataLimit s' = At (p - 1) \<and>
        getNumCaches s' = Inr (if 0 < n \<and> p mod g = 0 then n - 1 else n))"
    by auto
  then show ?thesis using pn(2) by (cases "p = 0") (auto simp add: getNumCaches_def)
next
  case Redo
  with assms(1) obtain r where u: "redo g s = Inr (r, s')"
    by (auto simp add: then_do_Inr)
  show ?thesis
  proof (cases "m_underUndo s")
    case False
    with u have "s' = s" by (simp add: redo_def)
    with assms(2) show ?thesis by simp
  next
    case True
    then have "s \<noteq> fresh" by (auto simp add: fresh_def)
    with assms(2) obtain p n where pn: "m_dataLimit s = At p" "getNumCaches s = Inr n" by blast
    from redo_step [OF True pn, of g] u show ?thesis by auto
  qed
qed

lemma run_keeps_iterators_set:
  "run g f s cs = Inr s' \<Longrightarrow>
   s = fresh \<or> ((\<exists>p. m_dataLimit s = At p) \<and> (\<exists>n. getNumCaches s = Inr n)) \<Longrightarrow>
   s' = fresh \<or> ((\<exists>p. m_dataLimit s' = At p) \<and> (\<exists>n. getNumCaches s' = Inr n))"
proof (induction cs arbitrary: s)
  case Nil
  then show ?case by simp
next
  case (Cons c cs)
  from Cons.prems(1) obtain s1 where s1: "step g f s c = Inr s1" "run g f s1 cs = Inr s'"
    by (auto simp add: then_do_Inr)
  from step_keeps_iterators_set [OF s1(1) Cons.prems(2)]
  show ?case using Cons.IH [OF s1(2)] by blast
qed

lemma reached_iterators_set:
  "run g f fresh cs = Inr s \<Longrightarrow>
   s = fresh \<or> ((\<exists>p. m_dataLimit s = At p) \<and> (\<exists>n. getNumCaches s = Inr n))"
  using run_keeps_iterators_set [of g f fresh cs s] by simp

section \<open>Undo at a boundary whose checkpoint does not exist yet\<close>

text \<open>
  \<^verbatim>\<open>emplaceBack\<close> builds the checkpoint of the boundary \<open>n * g\<close> when the element after
  the boundary is pushed. \<^verbatim>\<open>undo\<close> and \<^verbatim>\<open>redo\<close> move \<^verbatim>\<open>m_cacheLimit\<close> whenever the history
  cursor crosses a multiple of the gap, as if every boundary up to the end of the
  history had its checkpoint. When the history ends on a boundary, the topmost
  boundary has none, and the two disagree. The four evaluations below run the
  code on such inputs, with the gap 3 and the adder of the repository's test.
\<close>

text \<open>
  Claim C1 fails on the code. Append 1 to 9 (checkpoints 6 and 21), undo three
  times (the first undo, at position 9, gives up checkpoint 21 although it covers
  \<open>[0, 6)\<close>), append 10 to 13. The truncation drops checkpoint 21; the append of 13
  then builds the checkpoint of boundary 9 from checkpoint 6 and stores it at index
  1. \<^verbatim>\<open>reduceTo\<close> takes it for the fold of \<open>[0, 6)\<close> and yields 100; the fold of the
  ten layers from scratch is 67.
\<close>

theorem reduceTo_wrong_after_truncation:
  "run 3 adder fresh
     (map EmplaceBack [1, 2, 3, 4, 5, 6, 7, 8, 9] @ [Undo, Undo, Undo] @
      map EmplaceBack [10, 11, 12, 13]) =
     Inr \<lparr>m_data = [1, 2, 3, 4, 5, 6, 10, 11, 12, 13], m_cache = [6, 54],
          m_dataLimit = At 10, m_cacheLimit = At 2, m_underUndo = False\<rparr> \<and>
   reduceTo 3 adder
     \<lparr>m_data = [1, 2, 3, 4, 5, 6, 10, 11, 12, 13], m_cache = [6, 54],
      m_dataLimit = At 10, m_cacheLimit = At 2, m_underUndo = False\<rparr> 0 =
     Inr (100, \<lparr>m_data = [1, 2, 3, 4, 5, 6, 10, 11, 12, 13], m_cache = [6, 54],
               m_dataLimit = At 10, m_cacheLimit = At 2, m_underUndo = False\<rparr>) \<and>
   fold_from_scratch adder 0 (take 10 [1, 2, 3, 4, 5, 6, 10, 11, 12, 13]) = 67"
  by code_simp

text \<open>
  Claim C2 fails on the code. Append six layers (one checkpoint), undo four times,
  redo four times: the way down moves \<^verbatim>\<open>m_cacheLimit\<close> once (at 6; at 3 it is already
  at 0), the way up moves it twice (at 3 and at 6). It ends at 2 with one checkpoint
  in the deque, and \<^verbatim>\<open>getLastCache\<close> reads beyond the end.
\<close>

theorem cache_cursor_beyond_end:
  "run 3 adder fresh
     (map EmplaceBack [1, 2, 3, 4, 5, 6] @ [Undo, Undo, Undo, Undo] @ [Redo, Redo, Redo, Redo]) =
     Inr \<lparr>m_data = [1, 2, 3, 4, 5, 6], m_cache = [6], m_dataLimit = At 6, m_cacheLimit = At 2,
          m_underUndo = False\<rparr> \<and>
   getNumCaches \<lparr>m_data = [1, 2, 3, 4, 5, 6::int], m_cache = [6], m_dataLimit = At 6,
          m_cacheLimit = At 2, m_underUndo = False\<rparr> = Inr 2 \<and>
   \<not> (2::nat) \<le> length (m_cache \<lparr>m_data = [1, 2, 3, 4, 5, 6::int], m_cache = [6],
          m_dataLimit = At 6, m_cacheLimit = At 2, m_underUndo = False\<rparr>) \<and>
   getLastCache \<lparr>m_data = [1, 2, 3, 4, 5, 6::int], m_cache = [6], m_dataLimit = At 6,
          m_cacheLimit = At 2, m_underUndo = False\<rparr> = Inl OutOfRange"
  by code_simp

text \<open>
  Claim C3 fails on the code. After six appends and three undos the cursors are 3
  and 0. \<^verbatim>\<open>undo\<close> returns true and leaves \<^verbatim>\<open>m_cacheLimit\<close> at 0, because \<^verbatim>\<open>noCaches()\<close>
  holds; the \<^verbatim>\<open>redo\<close> that follows tests \<^verbatim>\<open>m_cache.empty()\<close> instead and moves it to 1.
\<close>

theorem undo_redo_moves_cache_cursor:
  "run 3 adder fresh (map EmplaceBack [1, 2, 3, 4, 5, 6] @ [Undo, Undo, Undo]) =
     Inr \<lparr>m_data = [1, 2, 3, 4, 5, 6], m_cache = [6], m_dataLimit = At 3, m_cacheLimit = At 0,
          m_underUndo = True\<rparr> \<and>
   undo 3 \<lparr>m_data = [1, 2, 3, 4, 5, 6::int], m_cache = [6], m_dataLimit = At 3,
           m_cacheLimit = At 0, m_underUndo = True\<rparr> =
     Inr (True, \<lparr>m_data = [1, 2, 3, 4, 5, 6], m_cache = [6], m_dataLimit = At 2,
                 m_cacheLimit = At 0, m_underUndo = True\<rparr>) \<and>
   redo 3 \<lparr>m_data = [1, 2, 3, 4, 5, 6::int], m_cache = [6], m_dataLimit = At 2,
           m_cacheLimit = At 0, m_underUndo = True\<rparr> =
     Inr (True, \<lparr>m_data = [1, 2, 3, 4, 5, 6], m_cache = [6], m_dataLimit = At 3,
                 m_cacheLimit = At 1, m_underUndo = True\<rparr>)"
  by code_simp

text \<open>
  Claim C8 fails on the code. After six appends and one undo, \<^verbatim>\<open>m_cacheLimit\<close> is at 0
  and the history cursor at 5: \<^verbatim>\<open>reduceTo\<close> replays five elements with the gap 3. The
  visitor \<open>counter\<close> counts the invocations of the visitor form; the same function as
  the combiner of an object of naturals counts those of the accumulator form.
\<close>

theorem reduceTo_visits_more_than_gap:
  "run 3 adder fresh (map EmplaceBack [1, 2, 3, 4, 5, 6] @ [Undo]) =
     Inr \<lparr>m_data = [1, 2, 3, 4, 5, 6], m_cache = [6], m_dataLimit = At 5, m_cacheLimit = At 0,
          m_underUndo = True\<rparr> \<and>
   reduceToVisitor 3 counter
     \<lparr>m_data = [1, 2, 3, 4, 5, 6::int], m_cache = [6], m_dataLimit = At 5, m_cacheLimit = At 0,
      m_underUndo = True\<rparr> 0 =
     Inr (5, \<lparr>m_data = [1, 2, 3, 4, 5, 6], m_cache = [6], m_dataLimit = At 5,
             m_cacheLimit = At 0, m_underUndo = True\<rparr>) \<and>
   run 3 counter fresh (map EmplaceBack [0, 0, 0, 0, 0, 0] @ [Undo]) =
     Inr \<lparr>m_data = [0, 0, 0, 0, 0, 0], m_cache = [2], m_dataLimit = At 5, m_cacheLimit = At 0,
          m_underUndo = True\<rparr> \<and>
   reduceTo 3 counter
     \<lparr>m_data = [0, 0, 0, 0, 0, 0], m_cache = [2], m_dataLimit = At 5, m_cacheLimit = At 0,
      m_underUndo = True\<rparr> 0 =
     Inr (5, \<lparr>m_data = [0, 0, 0, 0, 0, 0], m_cache = [2], m_dataLimit = At 5,
             m_cacheLimit = At 0, m_underUndo = True\<rparr>) \<and>
   \<not> (5::nat) \<le> 3 + 1"
  by code_simp

end
